theory Spec2Isabelle
  imports Main
begin

section \<open>The TINY lexer (lexer.c): line buffer and token scanner\<close>

text \<open>
  The lexer keeps its state in file-scope variables: the unread rest of the source
  file, the line buffer \<open>lineBuf\<close> with its cursor \<open>linepos\<close> and its
  length \<open>bufsize\<close>, the flag \<open>EOF_flag\<close>, and the global line counter
  \<open>lineno\<close> of main.c. They are gathered in one record that every operation takes
  and returns. The C \<open>int\<close> variables are unbounded integers here: \<open>linepos\<close> and
  \<open>bufsize\<close> stay below \<open>BUFLEN\<close>, and \<open>lineno\<close> grows by one per read
  attempt only, so that it cannot overflow before \<open>2^31\<close> such attempts.

  \<open>lineBuf\<close> holds the bytes that the last successful \<open>fgets\<close> stored in front
  of its terminating NUL. The echo of each line and the trace of each token
  (\<open>EchoSource\<close>, \<open>TraceLex\<close>) only print to the listing and are left out.
\<close>

subsection \<open>Token kinds and DFA states\<close>

text \<open>
  Modelled from the spec: globals.h is not part of the sources at hand; it declares the
  enumeration \<open>TokenType\<close>, \<open>MAXRESERVED\<close> and \<open>MAXTOKENLEN\<close>. The token kinds
  are those lexer.c uses, which are the kinds the specification lists (bookkeeping
  kinds, the eight reserved words, the multi-character kinds, the special symbols).
\<close>

datatype TokenType =
    ENDFILE | ERROR
  | IF | THEN | ELSE | END | REPEAT | UNTIL | READ | WRITE
  | ID | NUM
  | ASSIGN | EQ | LT | PLUS | MINUS | TIMES | OVER | LPAREN | RPAREN | SEMI

text \<open>
  Modelled from the spec: \<open>MAXRESERVED\<close> of globals.h is the number of reserved words,
  eight, which is also the number of initialisers of the table \<open>reservedWords\<close>.
\<close>

definition MAXRESERVED :: nat where
  "MAXRESERVED = 8"

text \<open>
  \<open>MAXTOKENLEN\<close> of globals.h is not fixed by the specification: the scanner takes
  it as its first argument. The buffer \<open>tokenString\<close> has \<open>MAXTOKENLEN + 1\<close> bytes.
\<close>

definition tokenString_size :: "nat \<Rightarrow> nat" where
  "tokenString_size MAXTOKENLEN = MAXTOKENLEN + 1"

datatype StateType = START | INASSIGN | INCOMMENT | INNUM | INID | DONE

definition BUFLEN :: nat where
  "BUFLEN = 256"

subsection \<open>Characters\<close>

text \<open>
  \<open>getNextChar\<close> returns an \<open>int\<close>: the value of an element of the line buffer,
  or \<open>EOF\<close>. The buffer is an array of plain \<open>char\<close>, and the element is returned
  as it is, without a cast to \<open>unsigned char\<close>. Plain \<open>char\<close> is taken as signed, as
  it is on the common platforms: a byte up to \<open>0x7F\<close> has its own value, and a byte
  above has its value less \<open>256\<close>, so that the byte \<open>0xFF\<close> is returned as \<open>- 1\<close>,
  the value of \<open>EOF\<close>.
\<close>

definition int_of_char :: "char \<Rightarrow> int" where
  "int_of_char c =
     (if of_char c < (128 :: nat) then int (of_char c) else int (of_char c) - 256)"

definition EOF :: int where
  "EOF = - 1"

definition NUL :: char where
  "NUL = CHR 0x00"

definition newline :: char where
  "newline = CHR 0x0A"

text \<open>
  \<open>isalpha\<close> and \<open>isdigit\<close> of \<open><ctype.h>\<close> in the C locale; they hold of no
  negative value.
\<close>

definition isalpha :: "int \<Rightarrow> bool" where
  "isalpha c \<longleftrightarrow>
     (int_of_char CHR ''A'' \<le> c \<and> c \<le> int_of_char CHR ''Z'') \<or>
     (int_of_char CHR ''a'' \<le> c \<and> c \<le> int_of_char CHR ''z'')"

definition isdigit :: "int \<Rightarrow> bool" where
  "isdigit c \<longleftrightarrow> int_of_char CHR ''0'' \<le> c \<and> c \<le> int_of_char CHR ''9''"

subsection \<open>The line buffer\<close>

record lexer =
  source :: "char list"
  lineBuf :: "char list"
  linepos :: int
  bufsize :: int
  EOF_flag :: bool
  lineno :: int

definition init_lexer :: "char list \<Rightarrow> lexer" where
  "init_lexer src =
     \<lparr>source = src, lineBuf = [], linepos = 0, bufsize = 0, EOF_flag = False, lineno = 0\<rparr>"

text \<open>
  \<open>fgets(buf, n, f)\<close> of the C library stores at most \<open>n - 1\<close> bytes, stops after a
  newline, and fails when the file is at its end before any byte.
\<close>

fun fgets_chunk :: "nat \<Rightarrow> char list \<Rightarrow> char list" where
  "fgets_chunk 0 cs = []"
| "fgets_chunk (Suc k) [] = []"
| "fgets_chunk (Suc k) (c # cs) = (if c = newline then [c] else c # fgets_chunk k cs)"

definition fgets :: "nat \<Rightarrow> char list \<Rightarrow> (char list \<times> char list) option" where
  "fgets n src =
     (if src = [] then None
      else let l = fgets_chunk (n - 1) src in Some (l, drop (length l) src))"

definition strlen :: "char list \<Rightarrow> int" where
  "strlen buf = int (length (takeWhile (\<lambda>c. c \<noteq> NUL) buf))"

definition getNextChar :: "lexer \<Rightarrow> int \<times> lexer" where
  "getNextChar s =
     (if \<not> (linepos s < bufsize s) then
        (let s1 = s\<lparr>lineno := lineno s + 1\<rparr> in
         case fgets (BUFLEN - 1) (source s1) of
           Some (l, rest) \<Rightarrow>
             (let s2 = s1\<lparr>source := rest, lineBuf := l\<rparr>;
                  s3 = s2\<lparr>bufsize := strlen (lineBuf s2)\<rparr>;
                  s4 = s3\<lparr>linepos := 0\<rparr>
              in (int_of_char (lineBuf s4 ! nat (linepos s4)), s4\<lparr>linepos := linepos s4 + 1\<rparr>))
         | None \<Rightarrow> (EOF, s1\<lparr>EOF_flag := True\<rparr>))
      else (int_of_char (lineBuf s ! nat (linepos s)), s\<lparr>linepos := linepos s + 1\<rparr>))"

definition ungetNextChar :: "lexer \<Rightarrow> lexer" where
  "ungetNextChar s = (if \<not> EOF_flag s then s\<lparr>linepos := linepos s - 1\<rparr> else s)"

subsection \<open>Reserved words\<close>

definition reservedWords :: "(string \<times> TokenType) list" where
  "reservedWords =
     [(''if'', IF), (''then'', THEN), (''else'', ELSE), (''end'', END),
      (''repeat'', REPEAT), (''until'', UNTIL), (''read'', READ), (''write'', WRITE)]"

text \<open>
  The linear search of \<open>reservedLookup\<close>, from index \<open>i\<close> on. It is called with the
  stored letters of an identifier only, for which \<open>strcmp\<close> is equality.
\<close>

function reservedLookup_from :: "nat \<Rightarrow> string \<Rightarrow> TokenType" where
  "reservedLookup_from i s =
     (if i < MAXRESERVED then
        (if s = fst (reservedWords ! i) then snd (reservedWords ! i)
         else reservedLookup_from (i + 1) s)
      else ID)"
  by pat_completeness auto
termination
  by (relation "measure (\<lambda>(i, s). MAXRESERVED - i)") auto

definition reservedLookup :: "string \<Rightarrow> TokenType" where
  "reservedLookup s = reservedLookup_from 0 s"

subsection \<open>The scanner\<close>

text \<open>
  The \<open>switch\<close> of the loop body: from the DFA state and the character just read it
  gives the next state, the token, the \<open>save\<close> flag, and the line buffer, backed up by
  one character where the code calls \<open>ungetNextChar\<close>. The loop never enters the
  \<open>switch\<close> in state \<open>DONE\<close>, for which it has no case.
\<close>

definition start_other :: "int \<Rightarrow> TokenType \<times> bool" where
  "start_other c =
     (if c = EOF then (ENDFILE, False)
      else if c = int_of_char CHR ''+'' then (PLUS, False)
      else if c = int_of_char CHR ''-'' then (MINUS, False)
      else if c = int_of_char CHR ''*'' then (TIMES, False)
      else if c = int_of_char CHR ''/'' then (OVER, False)
      else if c = int_of_char CHR '';'' then (SEMI, False)
      else if c = int_of_char CHR ''('' then (LPAREN, False)
      else if c = int_of_char CHR '')'' then (RPAREN, False)
      else if c = int_of_char CHR ''<'' then (LT, False)
      else if c = int_of_char CHR ''='' then (EQ, False)
      else (ERROR, True))"

definition iswhite :: "int \<Rightarrow> bool" where
  "iswhite c \<longleftrightarrow>
     c = int_of_char CHR '' '' \<or> c = int_of_char CHR 0x09 \<or> c = int_of_char CHR 0x0A \<or>
     c = int_of_char CHR 0x0D \<or> c = int_of_char CHR 0x0C \<or> c = int_of_char CHR 0x0B"

fun transition ::
  "StateType \<Rightarrow> int \<Rightarrow> TokenType \<Rightarrow> lexer \<Rightarrow> StateType \<times> TokenType \<times> bool \<times> lexer" where
  "transition INID c tok s =
     (if \<not> isalpha c then (DONE, ID, False, ungetNextChar s) else (INID, tok, True, s))"
| "transition INNUM c tok s =
     (if \<not> isdigit c then (DONE, NUM, False, ungetNextChar s) else (INNUM, tok, True, s))"
| "transition INASSIGN c tok s =
     (if c = int_of_char CHR ''='' then (DONE, ASSIGN, True, s)
      else (DONE, ERROR, False, ungetNextChar s))"
| "transition INCOMMENT c tok s =
     (if c = int_of_char CHR ''}'' then (START, tok, False, s) else (INCOMMENT, tok, False, s))"
| "transition START c tok s =
     (if isdigit c then (INNUM, tok, True, s)
      else if isalpha c then (INID, tok, True, s)
      else if c = int_of_char CHR ''{'' then (INCOMMENT, tok, False, s)
      else if iswhite c then (START, tok, False, s)
      else if c = int_of_char CHR '':'' then (INASSIGN, tok, True, s)
      else (DONE, fst (start_other c), snd (start_other c), s))"
| "transition DONE c tok s = (DONE, tok, True, s)"

text \<open>
  One iteration of the \<open>while\<close> loop. \<open>ts\<close> is \<open>tokenString[0 .. tokenStringIndex - 1]\<close>,
  so that \<open>tokenStringIndex\<close> is its length; the terminating NUL of the last lines is
  written at that index.
\<close>

definition getToken_step ::
  "nat \<Rightarrow> StateType \<Rightarrow> TokenType \<Rightarrow> string \<Rightarrow> lexer \<Rightarrow> StateType \<times> TokenType \<times> string \<times> lexer" where
  "getToken_step MAXTOKENLEN st tok ts s =
     (case getNextChar s of (c, s1) \<Rightarrow>
      case transition st c tok s1 of (st', tok', save, s2) \<Rightarrow>
        (let ts' = (if save \<and> length ts \<le> MAXTOKENLEN then ts @ [char_of c] else ts);
             tok'' = (if st' = DONE \<and> tok' = ID then reservedLookup ts' else tok')
         in (st', tok'', ts', s2)))"

text \<open>
  The loop may run forever; then the result is \<open>None\<close>. Otherwise it is the token, the
  stored lexeme and the line buffer left behind.
\<close>

partial_function (option) getToken_loop ::
  "nat \<Rightarrow> StateType \<Rightarrow> TokenType \<Rightarrow> string \<Rightarrow> lexer \<Rightarrow> (TokenType \<times> string \<times> lexer) option" where
  "getToken_loop MAXTOKENLEN st tok ts s =
     (if st \<noteq> DONE then
        (case getToken_step MAXTOKENLEN st tok ts s of
           (st', tok', ts', s') \<Rightarrow> getToken_loop MAXTOKENLEN st' tok' ts' s')
      else Some (tok, ts, s))"

declare getToken_loop.simps [code]

text \<open>
  \<open>currentToken\<close> is not initialised in the source; it is assigned on every transition to
  \<open>DONE\<close> before it is read, so its first value (here \<open>ERROR\<close>) is never seen.
\<close>

definition getToken :: "nat \<Rightarrow> lexer \<Rightarrow> (TokenType \<times> string \<times> lexer) option" where
  "getToken MAXTOKENLEN s = getToken_loop MAXTOKENLEN START ERROR [] s"

text \<open>The first \<open>n\<close> successive calls of \<open>getToken\<close>: the tokens with their lexemes.\<close>

fun getToken_calls ::
  "nat \<Rightarrow> nat \<Rightarrow> lexer \<Rightarrow> ((TokenType \<times> string) list \<times> lexer) option" where
  "getToken_calls MAXTOKENLEN 0 s = Some ([], s)"
| "getToken_calls MAXTOKENLEN (Suc n) s =
     (case getToken MAXTOKENLEN s of
        None \<Rightarrow> None
      | Some (tok, lexeme, s1) \<Rightarrow>
          (case getToken_calls MAXTOKENLEN n s1 of
             None \<Rightarrow> None
           | Some (toks, s2) \<Rightarrow> Some ((tok, lexeme) # toks, s2)))"

subsection \<open>Text sources and the characters still to be read\<close>

text \<open>
  The source is a text file: its bytes are 7-bit characters other than NUL. (A NUL byte
  in a line ends the buffered line for \<open>strlen\<close>, and a byte above \<open>0x7F\<close> is read
  as a negative value; the general properties below are stated for text.) \<open>pending\<close> is the text that \<open>getNextChar\<close> has not delivered yet: the rest
  of the line buffer, then the rest of the file. \<open>lexer_inv\<close> is the invariant of the
  line buffer on a text source.
\<close>

definition text_char :: "char \<Rightarrow> bool" where
  "text_char c \<longleftrightarrow> c \<noteq> NUL \<and> 0 \<le> int_of_char c \<and> int_of_char c < 128"

definition text_source :: "char list \<Rightarrow> bool" where
  "text_source src \<longleftrightarrow> list_all text_char src"

definition pending :: "lexer \<Rightarrow> char list" where
  "pending s = drop (nat (linepos s)) (lineBuf s) @ source s"

definition lexer_inv :: "lexer \<Rightarrow> bool" where
  "lexer_inv s \<longleftrightarrow>
     0 \<le> linepos s \<and> linepos s \<le> bufsize s \<and> bufsize s = int (length (lineBuf s)) \<and>
     text_source (lineBuf s) \<and> text_source (source s) \<and>
     (EOF_flag s \<longrightarrow> source s = [] \<and> linepos s = bufsize s)"

text \<open>What a caller sees of a call: the token, its lexeme, and the text left to read.\<close>

definition token_view ::
  "(TokenType \<times> string \<times> lexer) option \<Rightarrow> (TokenType \<times> string \<times> char list) option" where
  "token_view r = map_option (\<lambda>(tok, lexeme, s). (tok, lexeme, pending s)) r"

definition letter :: "char \<Rightarrow> bool" where
  "letter c \<longleftrightarrow> isalpha (int_of_char c)"

definition digit :: "char \<Rightarrow> bool" where
  "digit c \<longleftrightarrow> isdigit (int_of_char c)"

definition white :: "char \<Rightarrow> bool" where
  "white c \<longleftrightarrow> iswhite (int_of_char c)"





section \<open>Properties\<close>

subsection \<open>Characters and the C library\<close>

lemma int_of_char_range: "- 128 \<le> int_of_char c \<and> int_of_char c < 128"
proof -
  define n :: nat where "n = of_char c"
  have "n < 256" unfolding n_def by simp
  then show ?thesis unfolding int_of_char_def n_def [symmetric] by auto
qed

lemma int_of_char_mod: "int_of_char c mod 256 = int (of_char c)"
proof -
  define n :: nat where "n = of_char c"
  have "n < 256" unfolding n_def by simp
  then have "(if n < 128 then int n else int n - 256) mod 256 = int n"
    by (auto simp: mod_pos_pos_trivial minus_mod_self2)
  then show ?thesis unfolding int_of_char_def n_def [symmetric] .
qed

lemma int_of_char_0xFF: "int_of_char (CHR 0xFF) = EOF"
  by (simp add: int_of_char_def EOF_def)


lemma char_of_int_of_char: "char_of (int_of_char c) = c"
proof -
  have "take_bit 8 (int_of_char c) = int (of_char c)"
    using int_of_char_mod [of c] by (simp add: take_bit_eq_mod)
  then show ?thesis by (simp add: char_of_eq_iff of_nat_of_char)
qed

lemma int_of_char_eq: "int_of_char a = int_of_char b \<longleftrightarrow> a = b"
proof
  assume "int_of_char a = int_of_char b"
  then have "char_of (int_of_char a) = (char_of (int_of_char b) :: char)" by simp
  then show "a = b" by (simp only: char_of_int_of_char)
qed simp

lemma fgets_chunk_prefix: "take (length (fgets_chunk k cs)) cs = fgets_chunk k cs"
  by (induction k cs rule: fgets_chunk.induct) auto

lemma fgets_chunk_append_drop: "fgets_chunk k cs @ drop (length (fgets_chunk k cs)) cs = cs"
  using fgets_chunk_prefix [of k cs] append_take_drop_id [of "length (fgets_chunk k cs)" cs] by simp

lemma fgets_chunk_length: "length (fgets_chunk k cs) \<le> k"
  by (induction k cs rule: fgets_chunk.induct) auto

lemma fgets_chunk_Cons: "0 < k \<Longrightarrow> \<exists>l. fgets_chunk k (c # cs) = c # l"
  by (cases k) auto

lemma fgets_chunk_long: "newline \<notin> set l \<Longrightarrow> k \<le> length l \<Longrightarrow> fgets_chunk k (l @ rest) = take k l"
  by (induction k l rule: fgets_chunk.induct) auto

lemma strlen_text: "text_source l \<Longrightarrow> strlen l = int (length l)"
  by (induction l) (auto simp: strlen_def text_source_def text_char_def)

lemma text_source_append: "text_source (xs @ ys) \<longleftrightarrow> text_source xs \<and> text_source ys"
  by (simp add: text_source_def)

lemma text_source_parts: "text_source cs \<Longrightarrow> text_source (fgets_chunk k cs) \<and> text_source (drop (length (fgets_chunk k cs)) cs)"
  using fgets_chunk_append_drop [of k cs] text_source_append by metis

lemma getNextChar_buffered:
  "linepos s < bufsize s \<Longrightarrow>
   getNextChar s = (int_of_char (lineBuf s ! nat (linepos s)), s\<lparr>linepos := linepos s + 1\<rparr>)"
  by (simp add: getNextChar_def)

lemma getNextChar_eof:
  "\<not> linepos s < bufsize s \<Longrightarrow> source s = [] \<Longrightarrow>
   getNextChar s = (EOF, s\<lparr>lineno := lineno s + 1, EOF_flag := True\<rparr>)"
  by (simp add: getNextChar_def fgets_def)

lemma getNextChar_refill:
  assumes "\<not> linepos s < bufsize s" "source s = c # cs" "fgets_chunk 254 (c # cs) = c # l"
  shows "getNextChar s =
    (int_of_char c, s\<lparr>lineno := lineno s + 1, source := drop (length l) cs, lineBuf := c # l,
        bufsize := strlen (c # l), linepos := 1\<rparr>)"
  using assms by (simp add: getNextChar_def fgets_def BUFLEN_def)

lemma getNextChar_Nil:
  assumes "lexer_inv s" "pending s = []"
  shows "getNextChar s = (EOF, s\<lparr>lineno := lineno s + 1, EOF_flag := True\<rparr>)"
proof -
  from assms have "\<not> linepos s < bufsize s" "source s = []"
    by (auto simp: lexer_inv_def pending_def)
  then show ?thesis by (rule getNextChar_eof)
qed

subsection \<open>Reading and putting back on a text source\<close>

text \<open>On a text source every read of \<open>lineBuf\<close> is inside the stored line.\<close>

lemma buffer_read_in_range:
  assumes "lexer_inv s" "linepos s < bufsize s"
  shows "nat (linepos s) < length (lineBuf s)"
  using assms by (auto simp: lexer_inv_def)


lemma pending_Cons_buffered:
  assumes "lexer_inv s" "pending s = c # cs" "linepos s < bufsize s"
  shows "lineBuf s ! nat (linepos s) = c \<and> drop (nat (linepos s + 1)) (lineBuf s) @ source s = cs"
proof -
  from assms have n: "nat (linepos s) < length (lineBuf s)" and z: "0 \<le> linepos s"
    by (auto simp: lexer_inv_def)
  have "drop (nat (linepos s)) (lineBuf s) =
      lineBuf s ! nat (linepos s) # drop (Suc (nat (linepos s))) (lineBuf s)"
    using n by (simp add: Cons_nth_drop_Suc)
  moreover have "nat (linepos s + 1) = Suc (nat (linepos s))" using z by simp
  ultimately show ?thesis using assms(2) by (simp add: pending_def)
qed

lemma getNextChar_Cons:
  assumes "lexer_inv s" "pending s = c # cs"
  shows "\<exists>s'. getNextChar s = (int_of_char c, s') \<and> lexer_inv s' \<and> pending s' = cs \<and>
     \<not> EOF_flag s' \<and> 0 < linepos s' \<and> lexer_inv (ungetNextChar s') \<and> pending (ungetNextChar s') = c # cs"
proof (cases "linepos s < bufsize s")
  case True
  with assms have e: "\<not> EOF_flag s"
    by (auto simp: lexer_inv_def)
  note b = pending_Cons_buffered [OF assms True]
  let ?s' = "s\<lparr>linepos := linepos s + 1\<rparr>"
  have g: "getNextChar s = (int_of_char c, ?s')"
    using getNextChar_buffered [OF True] b by simp
  have i: "lexer_inv ?s'" using assms(1) True e by (simp add: lexer_inv_def)
  have p: "pending ?s' = cs" using b by (simp add: pending_def)
  have u: "ungetNextChar ?s' = s" using e by (simp add: ungetNextChar_def)
  have l: "0 < linepos ?s'" using assms(1) by (simp add: lexer_inv_def)
  show ?thesis using g i p u l e assms by auto
next
  case False
  with assms have p: "linepos s = bufsize s" and src: "source s = c # cs" and e: "\<not> EOF_flag s"
    by (auto simp: lexer_inv_def pending_def)
  obtain l where l: "fgets_chunk 254 (c # cs) = c # l"
    using fgets_chunk_Cons [of 254 c cs] by auto
  from assms src have t: "text_source (c # cs)" by (simp add: lexer_inv_def)
  have t2: "text_source (c # l)" "text_source (drop (length l) cs)"
    using text_source_parts [OF t, of 254] l by auto
  have len: "strlen (c # l) = int (length (c # l))" using t2(1) by (rule strlen_text)
  have app: "l @ drop (length l) cs = cs"
    using fgets_chunk_append_drop [of 254 "c # cs"] l by simp
  let ?s' = "s\<lparr>lineno := lineno s + 1, source := drop (length l) cs, lineBuf := c # l,
        bufsize := strlen (c # l), linepos := 1\<rparr>"
  have g: "getNextChar s = (int_of_char c, ?s')"
    using False src l by (rule getNextChar_refill)
  have i: "lexer_inv ?s'" using e t2 len by (simp add: lexer_inv_def)
  have pp: "pending ?s' = cs" using app by (simp add: pending_def)
  have e': "\<not> EOF_flag ?s'" using e by simp
  have u: "ungetNextChar ?s' = ?s'\<lparr>linepos := 0\<rparr>" using e by (simp add: ungetNextChar_def)
  have iu: "lexer_inv (?s'\<lparr>linepos := 0\<rparr>)" using e t2 len by (simp add: lexer_inv_def)
  have pu: "pending (?s'\<lparr>linepos := 0\<rparr>) = c # cs" using app by (simp add: pending_def)
  have lp: "0 < linepos ?s'" by simp
  from iu pu u have "lexer_inv (ungetNextChar ?s')" "pending (ungetNextChar ?s') = c # cs"
    by simp_all
  with g i pp e' lp show ?thesis by blast
qed

subsection \<open>One iteration of the loop, and the loop on equal pending text\<close>

lemma getToken_step_Nil:
  assumes "lexer_inv s" "pending s = []"
  shows "getToken_step M st tok ts s =
    (case transition st EOF tok (s\<lparr>lineno := lineno s + 1, EOF_flag := True\<rparr>) of
       (st', tok', save, s2) \<Rightarrow>
        (let ts' = (if save \<and> length ts \<le> M then ts @ [char_of EOF] else ts);
             tok'' = (if st' = DONE \<and> tok' = ID then reservedLookup ts' else tok')
         in (st', tok'', ts', s2)))"
  using getNextChar_Nil [OF assms] by (simp add: getToken_step_def)

lemma eof_state:
  assumes "lexer_inv s" "pending s = []"
  defines "se \<equiv> s\<lparr>lineno := lineno s + 1, EOF_flag := True\<rparr>"
  shows "lexer_inv se \<and> pending se = [] \<and> ungetNextChar se = se \<and> EOF_flag se"
  using assms(1,2) unfolding se_def by (auto simp: lexer_inv_def pending_def ungetNextChar_def)

lemma getToken_step_Cons:
  assumes "lexer_inv s" "pending s = c # cs"
  shows "\<exists>s1. lexer_inv s1 \<and> pending s1 = cs \<and> lexer_inv (ungetNextChar s1) \<and>
      pending (ungetNextChar s1) = c # cs \<and>
      getToken_step M st tok ts s =
       (case transition st (int_of_char c) tok s1 of
         (st', tok', save, s2) \<Rightarrow>
          (let ts' = (if save \<and> length ts \<le> M then ts @ [c] else ts);
               tok'' = (if st' = DONE \<and> tok' = ID then reservedLookup ts' else tok')
           in (st', tok'', ts', s2)))"
proof -
  from getNextChar_Cons [OF assms] obtain s1 where
    "getNextChar s = (int_of_char c, s1)" "lexer_inv s1" "pending s1 = cs"
    "lexer_inv (ungetNextChar s1)" "pending (ungetNextChar s1) = c # cs" by blast
  moreover obtain st' tok' save s2 where
    "transition st (int_of_char c) tok s1 = (st', tok', save, s2)"
    by (metis prod_cases4)
  ultimately show ?thesis
    by (intro exI [of _ s1]) (simp add: getToken_step_def char_of_int_of_char Let_def)
qed


lemma transition_sim:
  assumes "st \<noteq> DONE"
  shows "\<exists>b. (case transition st c tok s of (st', tok', save, s2) \<Rightarrow>
     s2 = (if b then ungetNextChar s else s) \<and>
     transition st c tok2 t = (st', if st' = DONE then tok' else tok2, save,
                               if b then ungetNextChar t else t) \<and>
     (st' \<noteq> DONE \<longrightarrow> tok' = tok))"
proof -
  let ?b = "st = INID \<and> \<not> isalpha c \<or> st = INNUM \<and> \<not> isdigit c \<or>
            st = INASSIGN \<and> c \<noteq> int_of_char CHR ''=''"
  show ?thesis using assms by (intro exI [of _ ?b]) (cases st; simp)
qed


lemma getNextChar_pending:
  assumes "lexer_inv s"
  shows "\<exists>s1. getNextChar s = ((case pending s of [] \<Rightarrow> EOF | x # _ \<Rightarrow> int_of_char x), s1) \<and>
     lexer_inv s1 \<and> lexer_inv (ungetNextChar s1) \<and>
     pending s1 = tl (pending s) \<and> pending (ungetNextChar s1) = pending s"
proof (cases "pending s")
  case Nil
  with getNextChar_Nil [OF assms Nil] eof_state [OF assms Nil] show ?thesis by simp
next
  case (Cons c cs)
  with getNextChar_Cons [OF assms Cons] show ?thesis by auto
qed

lemma step_sim:
  assumes "lexer_inv s" "lexer_inv t" "pending s = pending t" "st \<noteq> DONE"
  shows "\<exists>st' tok' ts' s' t'.
     getToken_step M st tok ts s = (st', tok', ts', s') \<and>
     getToken_step M st tok2 ts t = (st', (if st' = DONE then tok' else tok2), ts', t') \<and>
     (st' \<noteq> DONE \<longrightarrow> tok' = tok) \<and>
     lexer_inv s' \<and> lexer_inv t' \<and> pending s' = pending t'"
proof -
  define c where "c = (case pending s of [] \<Rightarrow> EOF | x # _ \<Rightarrow> int_of_char x)"
  from getNextChar_pending [OF assms(1)] obtain s1 where
    s1: "getNextChar s = (c, s1)" "lexer_inv s1" "lexer_inv (ungetNextChar s1)"
      "pending s1 = tl (pending s)" "pending (ungetNextChar s1) = pending s"
    unfolding c_def by blast
  from getNextChar_pending [OF assms(2)] assms(3) obtain t1 where
    t1: "getNextChar t = (c, t1)" "lexer_inv t1" "lexer_inv (ungetNextChar t1)"
      "pending t1 = tl (pending s)" "pending (ungetNextChar t1) = pending s"
    unfolding c_def by auto
  obtain st' tok' save s2 where tr: "transition st c tok s1 = (st', tok', save, s2)"
    by (metis prod_cases4)
  from transition_sim [OF assms(4), where c = c and tok = tok and s = s1 and ?tok2.0 = tok2 and t = t1] tr obtain b where
    b: "s2 = (if b then ungetNextChar s1 else s1)"
       "transition st c tok2 t1 = (st', if st' = DONE then tok' else tok2, save,
                               if b then ungetNextChar t1 else t1)"
       "st' \<noteq> DONE \<longrightarrow> tok' = tok"
    by auto
  show ?thesis using s1 t1 tr b
    by (cases b) (simp_all add: getToken_step_def Let_def)
qed

lemma loop_sim_aux:
  assumes "getToken_loop M st tok ts s = Some y"
    and "lexer_inv s" "lexer_inv t" "pending s = pending t" "st = DONE \<longrightarrow> tok2 = tok"
  shows "\<exists>t'. getToken_loop M st tok2 ts t = Some (fst y, fst (snd y), t') \<and>
     lexer_inv (snd (snd y)) \<and> lexer_inv t' \<and> pending (snd (snd y)) = pending t'"
  using assms
proof (induction M st tok ts s y arbitrary: t tok2 rule: getToken_loop.raw_induct [rotated 1, consumes 1])
  case (1 f M st tok ts s y)
  show ?case
  proof (cases "st = DONE")
    case True
    with 1 show ?thesis by (auto simp: getToken_loop.simps)
  next
    case False
    from step_sim [OF "1.prems"(1,2,3) False, of M tok ts tok2]
    obtain st' tok' ts' s' t' where
      st: "getToken_step M st tok ts s = (st', tok', ts', s')"
        "getToken_step M st tok2 ts t = (st', (if st' = DONE then tok' else tok2), ts', t')"
        "lexer_inv s'" "lexer_inv t'" "pending s' = pending t'"
      by blast
    from "1.hyps" False st(1) have f: "f M st' tok' ts' s' = Some y" by simp
    have "\<exists>t''. getToken_loop M st' (if st' = DONE then tok' else tok2) ts' t' =
        Some (fst y, fst (snd y), t'') \<and>
       lexer_inv (snd (snd y)) \<and> lexer_inv t'' \<and> pending (snd (snd y)) = pending t''"
      by (rule "1.IH" [OF f st(3,4,5)]) simp
    then show ?thesis using False st(2) by (subst getToken_loop.simps) simp
  qed
qed

text \<open>The first value of \<open>currentToken\<close> has no effect on what a call returns.\<close>

lemma initial_token_irrelevant:
  assumes "lexer_inv s" "st \<noteq> DONE"
  shows "token_view (getToken_loop M st tok ts s) = token_view (getToken_loop M st tok2 ts s)"
proof (cases "getToken_loop M st tok ts s")
  case None
  show ?thesis
  proof (cases "getToken_loop M st tok2 ts s")
    case (Some y)
    from loop_sim_aux [OF Some assms(1) assms(1) refl, of tok] assms(2) None
    show ?thesis by simp
  qed (simp add: None)
next
  case (Some y)
  from loop_sim_aux [OF Some assms(1) assms(1) refl, of tok2] assms(2) obtain t' where
    "getToken_loop M st tok2 ts s = Some (fst y, fst (snd y), t')"
    "pending (snd (snd y)) = pending t'" by auto
  with Some show ?thesis by (cases y) (simp add: token_view_def)
qed

subsection \<open>Reserved words and identifiers\<close>

declare reservedLookup_from.simps [simp del]

lemma reservedLookup_map_of:
  "reservedLookup x = (case map_of reservedWords x of Some k \<Rightarrow> k | None \<Rightarrow> ID)"
  by (simp add: reservedLookup_def reservedLookup_from.simps [of _ x] MAXRESERVED_def
      reservedWords_def)

lemma reservedWords_length: "map_of reservedWords x = Some k \<Longrightarrow> length x \<le> 6"
  by (auto simp: reservedWords_def split: if_splits)


lemma reservedLookup_take:
  assumes "6 \<le> M"
  shows "reservedLookup (take (Suc M) w) = reservedLookup w"
proof (cases "length w \<le> Suc M")
  case True
  then show ?thesis by simp
next
  case False
  then have "length (take (Suc M) w) > 6" "length w > 6" using assms by simp_all
  then have "map_of reservedWords (take (Suc M) w) = None" "map_of reservedWords w = None"
    using reservedWords_length by (metis not_le option.exhaust)+
  then show ?thesis by (simp add: reservedLookup_map_of)
qed

lemma loop_unfold:
  "st \<noteq> DONE \<Longrightarrow> getToken_step M st tok ts s = (st', tok', ts', s') \<Longrightarrow>
   getToken_loop M st tok ts s = getToken_loop M st' tok' ts' s'"
  by (subst getToken_loop.simps) simp

lemma loop_DONE: "getToken_loop M DONE tok ts s = Some (tok, ts, s)"
  by (subst getToken_loop.simps) simp

lemma letter_facts:
  "letter c \<Longrightarrow> isalpha (int_of_char c) \<and> \<not> isdigit (int_of_char c)"
  by (auto simp: letter_def isalpha_def isdigit_def int_of_char_def)

lemma white_facts:
  "white c \<Longrightarrow> iswhite (int_of_char c) \<and> \<not> isalpha (int_of_char c) \<and>
     \<not> isdigit (int_of_char c) \<and> c \<noteq> CHR ''{''"
  by (auto simp: white_def iswhite_def isalpha_def isdigit_def int_of_char_def)

lemma not_isalpha_EOF: "\<not> isalpha EOF" "\<not> isdigit EOF" "\<not> iswhite EOF"
  by (simp_all add: isalpha_def isdigit_def iswhite_def EOF_def int_of_char_def)

lemma step_START_letter:
  assumes "lexer_inv s" "pending s = c # cs" "letter c"
  shows "\<exists>s1. lexer_inv s1 \<and> pending s1 = cs \<and>
     getToken_loop M START tok ts s =
     getToken_loop M INID tok (if length ts \<le> M then ts @ [c] else ts) s1"
proof -
  from getToken_step_Cons [OF assms(1,2), of M START tok ts] letter_facts [OF assms(3)]
  obtain s1 where "lexer_inv s1" "pending s1 = cs"
    "getToken_step M START tok ts s = (INID, tok, (if length ts \<le> M then ts @ [c] else ts), s1)"
    by auto
  then show ?thesis using loop_unfold [of START M tok ts s] by auto
qed

lemma step_INID_letter:
  assumes "lexer_inv s" "pending s = c # cs" "letter c"
  shows "\<exists>s1. lexer_inv s1 \<and> pending s1 = cs \<and>
     getToken_loop M INID tok ts s =
     getToken_loop M INID tok (if length ts \<le> M then ts @ [c] else ts) s1"
proof -
  from getToken_step_Cons [OF assms(1,2), of M INID tok ts] letter_facts [OF assms(3)]
  obtain s1 where "lexer_inv s1" "pending s1 = cs"
    "getToken_step M INID tok ts s = (INID, tok, (if length ts \<le> M then ts @ [c] else ts), s1)"
    by auto
  then show ?thesis using loop_unfold [of INID M tok ts s] by auto
qed

lemma step_INID_stop:
  assumes "lexer_inv s" "pending s = [] \<or> \<not> letter (hd (pending s))"
  shows "\<exists>s'. lexer_inv s' \<and> pending s' = pending s \<and>
     getToken_loop M INID tok ts s = Some (reservedLookup ts, ts, s')"
proof (cases "pending s")
  case Nil
  from getToken_step_Nil [OF assms(1) Nil, of M INID tok ts] eof_state [OF assms(1) Nil]
  have "getToken_step M INID tok ts s =
      (DONE, reservedLookup ts, ts, s\<lparr>lineno := lineno s + 1, EOF_flag := True\<rparr>)"
    by (simp add: not_isalpha_EOF)
  then show ?thesis using loop_unfold [of INID M tok ts s] eof_state [OF assms(1) Nil] Nil
    by (auto simp: loop_DONE)
next
  case (Cons c cs)
  with assms(2) have n: "\<not> isalpha (int_of_char c)" by (simp add: letter_def)
  from getToken_step_Cons [OF assms(1) Cons, of M INID tok ts] n
  obtain s1 where "lexer_inv (ungetNextChar s1)" "pending (ungetNextChar s1) = c # cs"
    "getToken_step M INID tok ts s = (DONE, reservedLookup ts, ts, ungetNextChar s1)"
    by auto
  then show ?thesis using loop_unfold [of INID M tok ts s] Cons by (auto simp: loop_DONE)
qed

lemma INID_run:
  assumes "lexer_inv s" "pending s = w @ rest" "list_all letter w"
    "rest = [] \<or> \<not> letter (hd rest)"
  shows "\<exists>s'. lexer_inv s' \<and> pending s' = rest \<and>
     getToken_loop M INID tok ts s =
       Some (reservedLookup (ts @ take (Suc M - length ts) w), ts @ take (Suc M - length ts) w, s')"
  using assms
proof (induction w arbitrary: s ts)
  case Nil
  with step_INID_stop [of s M tok ts] show ?case by auto
next
  case (Cons c w)
  from Cons.prems have c: "letter c" and w: "list_all letter w" by simp_all
  from Cons.prems have p: "pending s = c # (w @ rest)" by simp
  let ?ts = "if length ts \<le> M then ts @ [c] else ts"
  from step_INID_letter [OF Cons.prems(1) p c, of M tok ts] obtain s1 where
    s1: "lexer_inv s1" "pending s1 = w @ rest"
      "getToken_loop M INID tok ts s = getToken_loop M INID tok ?ts s1" by blast
  have e: "?ts @ take (Suc M - length ?ts) w = ts @ take (Suc M - length ts) (c # w)"
    by (simp add: Suc_diff_le)
  from Cons.IH [OF s1(1,2) w Cons.prems(4), of ?ts] s1(3) show ?case
    unfolding e by simp
qed

subsection \<open>Identifiers and reserved words: the kind returned\<close>

lemma lexer_inv_init: "text_source src \<Longrightarrow> lexer_inv (init_lexer src)"
  by (simp add: lexer_inv_def init_lexer_def text_source_def)

lemma pending_init: "pending (init_lexer src) = src"
  by (simp add: pending_def init_lexer_def)

lemmas text_eval = text_source_def text_char_def NUL_def int_of_char_def

lemma getToken_shape:
  assumes "lexer_inv s" "pending s = w @ rest" "w \<noteq> []" "list_all letter w"
    "rest = [] \<or> \<not> letter (hd rest)"
  shows "\<exists>s'. lexer_inv s' \<and> pending s' = rest \<and>
     getToken M s = Some (reservedLookup (take (Suc M) w), take (Suc M) w, s')"
proof -
  from assms(3) obtain c v where w: "w = c # v" by (cases w) auto
  with assms have c: "letter c" and v: "list_all letter v" and p: "pending s = c # (v @ rest)"
    by simp_all
  from step_START_letter [OF assms(1) p c, of M ERROR "[]"] obtain s1 where
    s1: "lexer_inv s1" "pending s1 = v @ rest"
      "getToken_loop M START ERROR [] s = getToken_loop M INID ERROR [c] s1" by auto
  from INID_run [OF s1(1,2) v assms(5), of M ERROR "[c]"] s1(3) show ?thesis
    by (simp add: getToken_def w)
qed

text \<open>
  C3. When the text to read starts with a run of letters \<open>w\<close> that no letter follows, the
  kind that \<open>getToken\<close> returns is found by looking the whole of \<open>w\<close> up in the table
  of reserved words, by equality of strings and with the first entry that matches: the
  keyword's kind if there is one, and \<open>ID\<close> otherwise. The lexeme agrees with \<open>w\<close> on its
  first \<open>MAXTOKENLEN\<close> characters, and is \<open>w\<close> itself when \<open>w\<close> is no longer than that.
  The text left to read starts right after \<open>w\<close>. (\<open>MAXTOKENLEN\<close> is at least the length
  of the longest reserved word.)
\<close>

theorem getToken_reserved_or_identifier:
  assumes "lexer_inv s" "pending s = w @ rest" "w \<noteq> []" "list_all letter w"
    "rest = [] \<or> \<not> letter (hd rest)" "6 \<le> MAXTOKENLEN"
  shows "\<exists>lexeme s'.
     getToken MAXTOKENLEN s =
       Some ((case map_of reservedWords w of Some kw \<Rightarrow> kw | None \<Rightarrow> ID), lexeme, s') \<and>
     take MAXTOKENLEN lexeme = take MAXTOKENLEN w \<and>
     (length w \<le> MAXTOKENLEN \<longrightarrow> lexeme = w) \<and>
     pending s' = rest \<and> lexer_inv s'"
proof -
  from getToken_shape [OF assms(1-5), of MAXTOKENLEN] obtain s' where
    s': "lexer_inv s'" "pending s' = rest"
      "getToken MAXTOKENLEN s =
         Some (reservedLookup (take (Suc MAXTOKENLEN) w), take (Suc MAXTOKENLEN) w, s')"
    by blast
  have k: "reservedLookup (take (Suc MAXTOKENLEN) w) =
      (case map_of reservedWords w of Some kw \<Rightarrow> kw | None \<Rightarrow> ID)"
    using reservedLookup_take [OF assms(6)] by (simp add: reservedLookup_map_of)
  have "take MAXTOKENLEN (take (Suc MAXTOKENLEN) w) = take MAXTOKENLEN w"
    by (simp add: min_def)
  with s' k show ?thesis by simp
qed

theorem getToken_reserved_or_identifier_witness:
  "(\<exists>s'. getToken 40 (init_lexer ''end x'') = Some (END, ''end'', s') \<and> pending s' = '' x'') \<and>
   (\<exists>s'. getToken 40 (init_lexer ''End;'') = Some (ID, ''End'', s') \<and> pending s' = '';'')"
proof -
  have t: "lexer_inv (init_lexer ''end x'')" "lexer_inv (init_lexer ''End;'')"
    by (rule lexer_inv_init, simp add: text_eval)+
  have l: "list_all letter ''end''" "list_all letter ''End''"
    by (simp_all add: letter_def isalpha_def int_of_char_def)
  have n: "\<not> letter (hd '' x'')" "\<not> letter (hd '';'')"
    by (simp_all add: letter_def isalpha_def int_of_char_def)
  have a: "\<exists>s'. getToken 40 (init_lexer ''end x'') = Some (END, ''end'', s') \<and> pending s' = '' x''"
    using getToken_reserved_or_identifier [of "init_lexer ''end x''" "''end''" "'' x''" 40] t l n
    by (auto simp: pending_init reservedWords_def)
  have b: "\<exists>s'. getToken 40 (init_lexer ''End;'') = Some (ID, ''End'', s') \<and> pending s' = '';''"
    using getToken_reserved_or_identifier [of "init_lexer ''End;''" "''End''" "'';''" 40] t l n
    by (auto simp: pending_init reservedWords_def)
  from a b show ?thesis by simp
qed

subsection \<open>The lookahead after a colon\<close>




lemma colon_facts:
  "\<not> isdigit (int_of_char CHR '':'')" "\<not> isalpha (int_of_char CHR '':'')"
  "\<not> iswhite (int_of_char CHR '':'')" "int_of_char CHR '':'' \<noteq> int_of_char CHR ''{''"
  by (simp_all add: isdigit_def isalpha_def iswhite_def int_of_char_def)

lemma brace_facts:
  "\<not> isdigit (int_of_char CHR ''{'')" "\<not> isalpha (int_of_char CHR ''{'')"
  by (simp_all add: isdigit_def isalpha_def int_of_char_def)

lemma step_START_colon:
  assumes "lexer_inv s" "pending s = CHR '':'' # cs"
  shows "\<exists>s1. lexer_inv s1 \<and> pending s1 = cs \<and>
     getToken_loop M START tok [] s = getToken_loop M INASSIGN tok '':'' s1"
proof -
  from getToken_step_Cons [OF assms, of M START tok "[]"] colon_facts
  obtain s1 where "lexer_inv s1" "pending s1 = cs"
    "getToken_step M START tok [] s = (INASSIGN, tok, '':'', s1)"
    by auto
  then show ?thesis using loop_unfold [of START M tok "[]" s] by auto
qed

lemma step_INASSIGN_eq:
  assumes "lexer_inv s" "pending s = CHR ''='' # cs"
  shows "\<exists>s1. lexer_inv s1 \<and> pending s1 = cs \<and>
     getToken_loop M INASSIGN tok ts s =
       Some (ASSIGN, (if length ts \<le> M then ts @ ''='' else ts), s1)"
proof -
  from getToken_step_Cons [OF assms, of M INASSIGN tok ts]
  obtain s1 where "lexer_inv s1" "pending s1 = cs"
    "getToken_step M INASSIGN tok ts s =
       (DONE, ASSIGN, (if length ts \<le> M then ts @ ''='' else ts), s1)"
    by auto
  then show ?thesis using loop_unfold [of INASSIGN M tok ts s] by (auto simp: loop_DONE)
qed





subsection \<open>White space and comments\<close>

lemma step_START_white:
  assumes "lexer_inv s" "pending s = c # cs" "white c"
  shows "\<exists>s1. lexer_inv s1 \<and> pending s1 = cs \<and>
     getToken_loop M START tok ts s = getToken_loop M START tok ts s1"
proof -
  from white_facts [OF assms(3)] have "int_of_char c \<noteq> int_of_char CHR ''{''"
    by (simp add: int_of_char_eq)
  with getToken_step_Cons [OF assms(1,2), of M START tok ts] white_facts [OF assms(3)]
  obtain s1 where "lexer_inv s1" "pending s1 = cs"
    "getToken_step M START tok ts s = (START, tok, ts, s1)"
    by auto
  then show ?thesis using loop_unfold [of START M tok ts s] by auto
qed

lemma START_white_run:
  assumes "lexer_inv s" "pending s = ws @ rest" "list_all white ws"
  shows "\<exists>s'. lexer_inv s' \<and> pending s' = rest \<and>
     getToken_loop M START tok ts s = getToken_loop M START tok ts s'"
  using assms
proof (induction ws arbitrary: s)
  case Nil
  then show ?case by auto
next
  case (Cons c ws)
  from Cons.prems have c: "white c" and w: "list_all white ws"
    and p: "pending s = c # (ws @ rest)" by simp_all
  from step_START_white [OF Cons.prems(1) p c, of M tok ts] obtain s1 where
    s1: "lexer_inv s1" "pending s1 = ws @ rest"
      "getToken_loop M START tok ts s = getToken_loop M START tok ts s1" by blast
  from Cons.IH [OF s1(1,2) w] s1(3) show ?case by auto
qed

lemma step_START_brace:
  assumes "lexer_inv s" "pending s = CHR ''{'' # cs"
  shows "\<exists>s1. lexer_inv s1 \<and> pending s1 = cs \<and>
     getToken_loop M START tok ts s = getToken_loop M INCOMMENT tok ts s1"
proof -
  from getToken_step_Cons [OF assms, of M START tok ts] brace_facts
  obtain s1 where "lexer_inv s1" "pending s1 = cs"
    "getToken_step M START tok ts s = (INCOMMENT, tok, ts, s1)"
    by auto
  then show ?thesis using loop_unfold [of START M tok ts s] by auto
qed


lemma step_INCOMMENT_inside:
  assumes "lexer_inv s" "pending s = c # cs" "c \<noteq> CHR ''}''"
  shows "\<exists>s1. lexer_inv s1 \<and> pending s1 = cs \<and>
     getToken_loop M INCOMMENT tok ts s = getToken_loop M INCOMMENT tok ts s1"
proof -
  from assms(3) have "int_of_char c \<noteq> int_of_char CHR ''}''" by (simp add: int_of_char_eq)
  with getToken_step_Cons [OF assms(1,2), of M INCOMMENT tok ts]
  obtain s1 where "lexer_inv s1" "pending s1 = cs"
    "getToken_step M INCOMMENT tok ts s = (INCOMMENT, tok, ts, s1)"
    by auto
  then show ?thesis using loop_unfold [of INCOMMENT M tok ts s] by auto
qed






subsection \<open>Comments that are never closed\<close>

lemma step_INCOMMENT_eof:
  assumes "lexer_inv s" "pending s = []"
  shows "getToken_step M INCOMMENT tok ts s =
     (INCOMMENT, tok, ts, s\<lparr>lineno := lineno s + 1, EOF_flag := True\<rparr>)"
  using getToken_step_Nil [OF assms, of M INCOMMENT tok ts]
  by (simp add: EOF_def int_of_char_def)

lemma INCOMMENT_eof_aux:
  assumes "getToken_loop M st tok ts s = Some y" "st = INCOMMENT" "lexer_inv s" "pending s = []"
  shows False
  using assms
proof (induction M st tok ts s y rule: getToken_loop.raw_induct [rotated 1, consumes 1])
  case (1 f M st tok ts s y)
  let ?se = "s\<lparr>lineno := lineno s + 1, EOF_flag := True\<rparr>"
  from "1.prems" have e: "lexer_inv ?se" "pending ?se = []"
    using eof_state [of s] by simp_all
  from "1.hyps" "1.prems" step_INCOMMENT_eof [of s M tok ts]
  have "f M INCOMMENT tok ts ?se = Some y" by simp
  from "1.IH" [OF this refl e] show ?case .
qed

lemma INCOMMENT_eof_None:
  assumes "lexer_inv s" "pending s = []"
  shows "getToken_loop M INCOMMENT tok ts s = None"
proof (cases "getToken_loop M INCOMMENT tok ts s")
  case (Some y)
  from INCOMMENT_eof_aux [OF Some refl assms] show ?thesis ..
qed simp

lemma INCOMMENT_unterminated:
  assumes "lexer_inv s" "CHR ''}'' \<notin> set (pending s)"
  shows "getToken_loop M INCOMMENT tok ts s = None"
  using assms
proof (induction "pending s" arbitrary: s)
  case Nil
  then show ?case by (simp add: INCOMMENT_eof_None)
next
  case (Cons c cs)
  from Cons.hyps(2) [symmetric] Cons.prems(2) have c: "c \<noteq> CHR ''}''" and p: "pending s = c # cs"
    and cs: "CHR ''}'' \<notin> set cs" by auto
  from step_INCOMMENT_inside [OF Cons.prems(1) p c, of M tok ts] obtain s1 where
    s1: "lexer_inv s1" "pending s1 = cs"
      "getToken_loop M INCOMMENT tok ts s = getToken_loop M INCOMMENT tok ts s1" by blast
  from Cons.hyps(1) [of s1] s1 cs show ?case by simp
qed

lemma unterminated_comment:
  assumes "lexer_inv s" "pending s = CHR ''{'' # b" "CHR ''}'' \<notin> set b"
  shows "getToken M s = None"
proof -
  from step_START_brace [OF assms(1,2), of M ERROR "[]"] obtain s1 where
    s1: "lexer_inv s1" "pending s1 = b"
      "getToken_loop M START ERROR [] s = getToken_loop M INCOMMENT ERROR [] s1" by blast
  from INCOMMENT_unterminated [of s1 M ERROR "[]"] s1 assms(3) show ?thesis
    by (simp add: getToken_def)
qed

text \<open>
  C8. On the source \<open>{\<close>, a comment that is never closed, the first call of
  \<open>getToken\<close> does not return: in state \<open>INCOMMENT\<close> the end of the file is read as
  one more character of the comment, again and again.
\<close>

theorem getToken_unterminated_comment_diverges:
  "getToken MAXTOKENLEN (init_lexer ''{'') = None"
proof -
  have "lexer_inv (init_lexer ''{'')" by (rule lexer_inv_init) (simp add: text_eval)
  then show ?thesis by (rule unterminated_comment [of _ "[]"]) (simp_all add: pending_init)
qed

subsection \<open>The end of the file\<close>

lemma step_START_eof:
  assumes "lexer_inv s" "pending s = []"
  shows "getToken_loop M START tok ts s =
     Some (ENDFILE, ts, s\<lparr>lineno := lineno s + 1, EOF_flag := True\<rparr>)"
proof -
  from getToken_step_Nil [OF assms, of M START tok ts]
  have "getToken_step M START tok ts s =
      (DONE, ENDFILE, ts, s\<lparr>lineno := lineno s + 1, EOF_flag := True\<rparr>)"
    by (simp add: not_isalpha_EOF start_other_def) (simp add: EOF_def int_of_char_def)
  then show ?thesis using loop_unfold [of START M tok ts s] by (simp add: loop_DONE)
qed




lemma getToken_at_eof:
  assumes "lexer_inv s" "pending s = []" "EOF_flag s"
  shows "getToken M s = Some (ENDFILE, [], s\<lparr>lineno := lineno s + 1\<rparr>)"
proof -
  from assms(3) have "s\<lparr>lineno := lineno s + 1, EOF_flag := True\<rparr> = s\<lparr>lineno := lineno s + 1\<rparr>"
    by simp
  with step_START_eof [OF assms(1,2), of M ERROR "[]"] show ?thesis by (simp add: getToken_def)
qed

lemma getToken_calls_at_eof:
  assumes "lexer_inv s" "pending s = []" "EOF_flag s"
  shows "getToken_calls M n s = Some (replicate n (ENDFILE, []), s\<lparr>lineno := lineno s + int n\<rparr>)"
  using assms
proof (induction n arbitrary: s)
  case 0
  then show ?case by simp
next
  case (Suc n)
  let ?s = "s\<lparr>lineno := lineno s + 1\<rparr>"
  from Suc.prems have "lexer_inv ?s" "pending ?s = []" "EOF_flag ?s"
    by (simp_all add: lexer_inv_def pending_def text_source_def)
  from Suc.IH [OF this] getToken_at_eof [OF Suc.prems, of M] show ?case
    by (simp add: add.assoc add.commute)
qed





subsection \<open>The cursor of the line buffer\<close>




lemma lineno_getNextChar:
  "lineno (snd (getNextChar s)) = (if linepos s < bufsize s then lineno s else lineno s + 1)"
  by (simp add: getNextChar_def Let_def split: option.splits)





subsection \<open>The line counter\<close>

lemma getToken_empty:
  "getToken M (init_lexer []) = Some (ENDFILE, [], (init_lexer [])\<lparr>lineno := 1, EOF_flag := True\<rparr>)"
proof -
  have "lexer_inv (init_lexer [])" by (rule lexer_inv_init) (simp add: text_source_def)
  from step_START_eof [OF this, of M ERROR "[]"] show ?thesis
    by (simp add: getToken_def pending_init) (simp add: init_lexer_def)
qed

text \<open>
  C5, as the claim states it, fails: on the empty source the first call returns
  \<open>ENDFILE\<close>, and \<open>lineno\<close> is then \<open>1\<close>, not \<open>0\<close>.
\<close>

theorem empty_source_lineno_counterexample:
  "getToken 40 (init_lexer []) =
     Some (ENDFILE, [], \<lparr>source = [], lineBuf = [], linepos = 0, bufsize = 0,
                          EOF_flag = True, lineno = 1\<rparr>) \<and>
   lineno \<lparr>source = [], lineBuf = [], linepos = 0, bufsize = 0, EOF_flag = True, lineno = 1\<rparr> \<noteq> 0"
  using getToken_empty [of 40] by (simp add: init_lexer_def)

text \<open>
  C5, amended. On the empty source \<open>getToken\<close> returns the end-of-file token only, and
  \<open>lineno\<close> is then \<open>1\<close>. In general \<open>getNextChar\<close> adds one to \<open>lineno\<close> exactly
  when it finds the line buffer used up and so tries to read a line, whether that read
  gives a line or fails; a read from the buffer leaves \<open>lineno\<close> as it is.
\<close>

theorem lineno_counts_read_attempts:
  "getToken_calls MAXTOKENLEN (Suc n) (init_lexer []) =
     Some (replicate (Suc n) (ENDFILE, []),
           (init_lexer [])\<lparr>lineno := 1 + int n, EOF_flag := True\<rparr>) \<and>
   lineno (snd (getNextChar s)) = (if linepos s < bufsize s then lineno s else lineno s + 1)"
proof -
  let ?e = "(init_lexer [])\<lparr>lineno := 1, EOF_flag := True\<rparr>"
  have "lexer_inv ?e" "pending ?e = []" "EOF_flag ?e"
    by (simp_all add: lexer_inv_def init_lexer_def pending_def text_source_def)
  from getToken_calls_at_eof [OF this, of MAXTOKENLEN n] getToken_empty [of MAXTOKENLEN]
  show ?thesis by (simp add: lineno_getNextChar)
qed

theorem lineno_counts_read_attempts_witness:
  "getToken_calls 40 (Suc 0) (init_lexer []) =
     Some ([(ENDFILE, [])], (init_lexer [])\<lparr>lineno := 1, EOF_flag := True\<rparr>) \<and>
   lineno (snd (getNextChar ((init_lexer [])\<lparr>lineno := 1, EOF_flag := True\<rparr>))) = 2"
  using lineno_counts_read_attempts [of 40 0 "(init_lexer [])\<lparr>lineno := 1, EOF_flag := True\<rparr>"]
  by (simp add: init_lexer_def)

text \<open>
  C6, as the claim states it, fails: the source below is one physical line, of 255 letters
  and a newline. It is read in two chunks, and after the one token of the line
  \<open>lineno\<close> is \<open>2\<close>.
\<close>

theorem long_line_lineno_counterexample:
  "getToken 40 (init_lexer (replicate 255 (CHR ''a'') @ [newline])) =
     Some (ID, replicate 41 (CHR ''a''),
           \<lparr>source = [], lineBuf = [CHR ''a'', newline], linepos = 1,
              bufsize = 2, EOF_flag = False, lineno = 2\<rparr>)"
  by code_simp

text \<open>
  C6, amended. A physical line with \<open>BUFLEN - 2\<close> or more characters before its
  newline is read in chunks: when the line buffer is used up and the source stands in
  such a line (\<open>l\<close> is what is left of it before the newline), \<open>getNextChar\<close> reads
  its next \<open>BUFLEN - 2\<close> characters only, and adds one to \<open>lineno\<close> for this chunk;
  the rest of the line stays in the source for the next chunk, counted again.
\<close>

theorem long_line_read_in_chunks:
  assumes "\<not> linepos s < bufsize s" "source s = l @ rest" "newline \<notin> set l" "BUFLEN - 2 \<le> length l"
  shows "getNextChar s =
     (int_of_char (hd l),
      s\<lparr>lineno := lineno s + 1, source := drop (BUFLEN - 2) l @ rest,
        lineBuf := take (BUFLEN - 2) l, bufsize := strlen (take (BUFLEN - 2) l), linepos := 1\<rparr>)"
proof -
  from assms(4) obtain c m where l: "l = c # m" by (cases l) (auto simp: BUFLEN_def)
  have ch: "fgets_chunk 254 (l @ rest) = take 254 l"
    using assms(3,4) by (intro fgets_chunk_long) (simp_all add: BUFLEN_def)
  have tk: "take 254 l = c # take 253 m" using l by (simp add: take_Cons')
  from assms(4) have len: "length (take 253 m) = 253" using l by (simp add: BUFLEN_def)
  have ch': "fgets_chunk 254 (c # (m @ rest)) = c # take 253 m" using ch tk l by simp
  have "getNextChar s =
    (int_of_char c, s\<lparr>lineno := lineno s + 1, source := drop (length (take 253 m)) (m @ rest),
        lineBuf := c # take 253 m, bufsize := strlen (c # take 253 m), linepos := 1\<rparr>)"
    using assms(1) by (rule getNextChar_refill) (simp_all add: assms(2) l ch')
  moreover have "drop (length (take 253 m)) (m @ rest) = drop 254 l @ rest"
    unfolding len using l assms(4) by (simp add: BUFLEN_def drop_Cons')
  ultimately show ?thesis by (simp add: BUFLEN_def tk l)
qed


theorem long_line_read_in_chunks_witness:
  "lineno (snd (getNextChar (init_lexer (replicate 300 (CHR ''a'') @ [newline])))) = 1 \<and>
   lineBuf (snd (getNextChar (init_lexer (replicate 300 (CHR ''a'') @ [newline])))) =
     replicate 254 (CHR ''a'') \<and>
   source (snd (getNextChar (init_lexer (replicate 300 (CHR ''a'') @ [newline])))) =
     replicate 46 (CHR ''a'') @ [newline]"
proof -
  have "getNextChar (init_lexer (replicate 300 (CHR ''a'') @ [newline])) =
     (int_of_char (hd (replicate 300 (CHR ''a''))),
      (init_lexer (replicate 300 (CHR ''a'') @ [newline]))
       \<lparr>lineno := lineno (init_lexer (replicate 300 (CHR ''a'') @ [newline])) + 1,
        source := drop (BUFLEN - 2) (replicate 300 (CHR ''a'')) @ [newline],
        lineBuf := take (BUFLEN - 2) (replicate 300 (CHR ''a'')),
        bufsize := strlen (take (BUFLEN - 2) (replicate 300 (CHR ''a''))), linepos := 1\<rparr>)"
    by (rule long_line_read_in_chunks) (simp_all add: init_lexer_def newline_def BUFLEN_def)
  then show ?thesis by (simp add: init_lexer_def BUFLEN_def)
qed

subsection \<open>The bound of the stored lexeme\<close>

text \<open>
  C4. On the source of \<open>MAXTOKENLEN + 1\<close> letters \<open>a\<close>, \<open>getToken\<close> returns a lexeme
  of \<open>MAXTOKENLEN + 1\<close> stored characters, one more than \<open>MAXTOKENLEN\<close>: the guard of the
  store is \<open>tokenStringIndex <= MAXTOKENLEN\<close>. The terminating NUL is then written at
  index \<open>MAXTOKENLEN + 1\<close>, which is not below the size of \<open>tokenString\<close>.
\<close>

theorem getToken_stores_one_too_many:
  "\<exists>tok lexeme s'.
     getToken MAXTOKENLEN (init_lexer (replicate (MAXTOKENLEN + 1) (CHR ''a''))) =
       Some (tok, lexeme, s') \<and>
     lexeme = replicate (MAXTOKENLEN + 1) (CHR ''a'') \<and>
     length lexeme = MAXTOKENLEN + 1 \<and>
     \<not> length lexeme < tokenString_size MAXTOKENLEN"
proof -
  let ?w = "replicate (MAXTOKENLEN + 1) (CHR ''a'')"
  have "text_source ?w" by (auto simp: text_eval list_all_iff)
  then have i: "lexer_inv (init_lexer ?w)" by (rule lexer_inv_init)
  have l: "list_all letter ?w"
    by (auto simp: list_all_iff letter_def isalpha_def int_of_char_def)
  from getToken_shape [OF i _ _ l, of "[]" MAXTOKENLEN] show ?thesis
    by (auto simp: pending_init tokenString_size_def)
qed

subsection \<open>Numbers, special symbols, and a whole statement\<close>

lemma digit_facts: "digit c \<Longrightarrow> isdigit (int_of_char c)"
  by (simp add: digit_def)

lemma step_START_digit:
  assumes "lexer_inv s" "pending s = c # cs" "digit c"
  shows "\<exists>s1. lexer_inv s1 \<and> pending s1 = cs \<and>
     getToken_loop M START tok ts s =
     getToken_loop M INNUM tok (if length ts \<le> M then ts @ [c] else ts) s1"
proof -
  from getToken_step_Cons [OF assms(1,2), of M START tok ts] digit_facts [OF assms(3)]
  obtain s1 where "lexer_inv s1" "pending s1 = cs"
    "getToken_step M START tok ts s = (INNUM, tok, (if length ts \<le> M then ts @ [c] else ts), s1)"
    by auto
  then show ?thesis using loop_unfold [of START M tok ts s] by auto
qed

lemma step_INNUM_digit:
  assumes "lexer_inv s" "pending s = c # cs" "digit c"
  shows "\<exists>s1. lexer_inv s1 \<and> pending s1 = cs \<and>
     getToken_loop M INNUM tok ts s =
     getToken_loop M INNUM tok (if length ts \<le> M then ts @ [c] else ts) s1"
proof -
  from getToken_step_Cons [OF assms(1,2), of M INNUM tok ts] digit_facts [OF assms(3)]
  obtain s1 where "lexer_inv s1" "pending s1 = cs"
    "getToken_step M INNUM tok ts s = (INNUM, tok, (if length ts \<le> M then ts @ [c] else ts), s1)"
    by auto
  then show ?thesis using loop_unfold [of INNUM M tok ts s] by auto
qed

lemma step_INNUM_stop:
  assumes "lexer_inv s" "pending s = [] \<or> \<not> digit (hd (pending s))"
  shows "\<exists>s'. lexer_inv s' \<and> pending s' = pending s \<and>
     getToken_loop M INNUM tok ts s = Some (NUM, ts, s')"
proof (cases "pending s")
  case Nil
  from getToken_step_Nil [OF assms(1) Nil, of M INNUM tok ts] eof_state [OF assms(1) Nil]
  have "getToken_step M INNUM tok ts s =
      (DONE, NUM, ts, s\<lparr>lineno := lineno s + 1, EOF_flag := True\<rparr>)"
    by (simp add: not_isalpha_EOF)
  then show ?thesis using loop_unfold [of INNUM M tok ts s] eof_state [OF assms(1) Nil] Nil
    by (auto simp: loop_DONE)
next
  case (Cons c cs)
  with assms(2) have n: "\<not> isdigit (int_of_char c)" by (simp add: digit_def)
  from getToken_step_Cons [OF assms(1) Cons, of M INNUM tok ts] n
  obtain s1 where "lexer_inv (ungetNextChar s1)" "pending (ungetNextChar s1) = c # cs"
    "getToken_step M INNUM tok ts s = (DONE, NUM, ts, ungetNextChar s1)"
    by auto
  then show ?thesis using loop_unfold [of INNUM M tok ts s] Cons by (auto simp: loop_DONE)
qed

lemma INNUM_run:
  assumes "lexer_inv s" "pending s = w @ rest" "list_all digit w"
    "rest = [] \<or> \<not> digit (hd rest)"
  shows "\<exists>s'. lexer_inv s' \<and> pending s' = rest \<and>
     getToken_loop M INNUM tok ts s = Some (NUM, ts @ take (Suc M - length ts) w, s')"
  using assms
proof (induction w arbitrary: s ts)
  case Nil
  with step_INNUM_stop [of s M tok ts] show ?case by auto
next
  case (Cons c w)
  from Cons.prems have c: "digit c" and w: "list_all digit w" by simp_all
  from Cons.prems have p: "pending s = c # (w @ rest)" by simp
  let ?ts = "if length ts \<le> M then ts @ [c] else ts"
  from step_INNUM_digit [OF Cons.prems(1) p c, of M tok ts] obtain s1 where
    s1: "lexer_inv s1" "pending s1 = w @ rest"
      "getToken_loop M INNUM tok ts s = getToken_loop M INNUM tok ?ts s1" by blast
  have e: "?ts @ take (Suc M - length ?ts) w = ts @ take (Suc M - length ts) (c # w)"
    by (simp add: Suc_diff_le)
  from Cons.IH [OF s1(1,2) w Cons.prems(4), of ?ts] s1(3) show ?case
    unfolding e by simp
qed

lemma START_number:
  assumes "lexer_inv s" "pending s = w @ rest" "w \<noteq> []" "list_all digit w"
    "rest = [] \<or> \<not> digit (hd rest)"
  shows "\<exists>s'. lexer_inv s' \<and> pending s' = rest \<and>
     getToken_loop M START tok [] s = Some (NUM, take (Suc M) w, s')"
proof -
  from assms(3) obtain c v where w: "w = c # v" by (cases w) auto
  with assms have c: "digit c" and v: "list_all digit v" and p: "pending s = c # (v @ rest)"
    by simp_all
  from step_START_digit [OF assms(1) p c, of M tok "[]"] obtain s1 where
    s1: "lexer_inv s1" "pending s1 = v @ rest"
      "getToken_loop M START tok [] s = getToken_loop M INNUM tok [c] s1" by auto
  from INNUM_run [OF s1(1,2) v assms(5), of M tok "[c]"] s1(3) show ?thesis
    by (simp add: w)
qed

lemma step_START_semi:
  assumes "lexer_inv s" "pending s = CHR '';'' # cs"
  shows "\<exists>s1. lexer_inv s1 \<and> pending s1 = cs \<and>
     getToken_loop M START tok ts s = Some (SEMI, ts, s1)"
proof -
  have "\<not> isdigit (int_of_char CHR '';'')" "\<not> isalpha (int_of_char CHR '';'')"
    "\<not> iswhite (int_of_char CHR '';'')" "int_of_char CHR '';'' \<noteq> int_of_char CHR ''{''"
    "int_of_char CHR '';'' \<noteq> int_of_char CHR '':''"
    "start_other (int_of_char CHR '';'') = (SEMI, False)"
    by (simp_all add: isdigit_def isalpha_def iswhite_def int_of_char_def start_other_def EOF_def)
  with getToken_step_Cons [OF assms, of M START tok ts]
  obtain s1 where "lexer_inv s1" "pending s1 = cs"
    "getToken_step M START tok ts s = (DONE, SEMI, ts, s1)"
    by auto
  then show ?thesis using loop_unfold [of START M tok ts s] by (auto simp: loop_DONE)
qed

lemma getToken_calls_Suc:
  assumes "getToken M s = Some (tok, lexeme, s1)" "getToken_calls M n s1 = Some (toks, s2)"
  shows "getToken_calls M (Suc n) s = Some ((tok, lexeme) # toks, s2)"
  using assms by simp

text \<open>
  C1. On the source \<open>x := 12;\<close> the first five calls of \<open>getToken\<close> return, in this
  order: \<open>ID\<close> with the lexeme \<open>x\<close>, \<open>ASSIGN\<close>, \<open>NUM\<close> with the lexeme \<open>12\<close>,
  \<open>SEMI\<close>, and \<open>ENDFILE\<close>. (\<open>MAXTOKENLEN\<close> is at least \<open>1\<close>, so that two characters
  fit.)
\<close>

theorem scan_assignment_statement:
  assumes "1 \<le> MAXTOKENLEN"
  shows "map_option fst (getToken_calls MAXTOKENLEN 5 (init_lexer ''x := 12;'')) =
     Some [(ID, ''x''), (ASSIGN, '':=''), (NUM, ''12''), (SEMI, []), (ENDFILE, [])]"
proof -
  let ?M = MAXTOKENLEN
  from assms obtain k where k: "?M = Suc k" by (cases ?M) auto
  have i0: "lexer_inv (init_lexer ''x := 12;'')" by (rule lexer_inv_init) (simp add: text_eval)
  have p0: "pending (init_lexer ''x := 12;'') = ''x'' @ '' := 12;''" by (simp add: pending_init)
  have "list_all letter ''x''" "\<not> letter (hd '' := 12;'')"
    by (simp_all add: letter_def isalpha_def int_of_char_def)
  with getToken_shape [OF i0 p0, of ?M] obtain s1 where
    s1: "lexer_inv s1" "pending s1 = '' '' @ '':= 12;''"
      "getToken ?M (init_lexer ''x := 12;'') = Some (reservedLookup (take (Suc ?M) ''x''), take (Suc ?M) ''x'', s1)"
    by auto
  have r1: "reservedLookup (take (Suc ?M) ''x'') = ID" "take (Suc ?M) ''x'' = ''x''"
    by (simp_all add: reservedLookup_map_of reservedWords_def)
  have w: "list_all white '' ''" by (simp add: white_def iswhite_def int_of_char_def)
  from START_white_run [OF s1(1,2) w, of ?M ERROR "[]"] obtain s1a where
    s1a: "lexer_inv s1a" "pending s1a = CHR '':'' # ''= 12;''"
      "getToken ?M s1 = getToken_loop ?M START ERROR [] s1a" by (auto simp: getToken_def)
  from step_START_colon [OF s1a(1,2), of ?M ERROR] obtain s1b where
    s1b: "lexer_inv s1b" "pending s1b = CHR ''='' # '' 12;''"
      "getToken_loop ?M START ERROR [] s1a = getToken_loop ?M INASSIGN ERROR '':'' s1b" by blast
  from step_INASSIGN_eq [OF s1b(1,2), of ?M ERROR "'':''"] obtain s2 where
    s2: "lexer_inv s2" "pending s2 = '' '' @ ''12;''"
      "getToken_loop ?M INASSIGN ERROR '':'' s1b = Some (ASSIGN, '':='', s2)"
    using k by auto
  from START_white_run [OF s2(1,2) w, of ?M ERROR "[]"] obtain s2a where
    s2a: "lexer_inv s2a" "pending s2a = ''12'' @ '';''"
      "getToken ?M s2 = getToken_loop ?M START ERROR [] s2a" by (auto simp: getToken_def)
  have "''12'' \<noteq> []" "list_all digit ''12''" "'';'' = [] \<or> \<not> digit (hd '';'')"
    by (simp_all add: digit_def isdigit_def int_of_char_def)
  from START_number [OF s2a(1,2) this, of ?M ERROR] obtain s3 where
    s3: "lexer_inv s3" "pending s3 = CHR '';'' # []"
      "getToken_loop ?M START ERROR [] s2a = Some (NUM, ''12'', s3)"
    using k by auto
  from step_START_semi [OF s3(1,2), of ?M ERROR "[]"] obtain s4 where
    s4: "lexer_inv s4" "pending s4 = []" "getToken ?M s3 = Some (SEMI, [], s4)"
    by (auto simp: getToken_def)
  from step_START_eof [OF s4(1,2), of ?M ERROR "[]"]
  have c5: "getToken ?M s4 = Some (ENDFILE, [], s4\<lparr>lineno := lineno s4 + 1, EOF_flag := True\<rparr>)"
    by (simp add: getToken_def)
  have c1: "getToken ?M (init_lexer ''x := 12;'') = Some (ID, ''x'', s1)"
    using s1(3) r1 by simp
  have c2: "getToken ?M s1 = Some (ASSIGN, '':='', s2)" using s1a(3) s1b(3) s2(3) by simp
  have c3: "getToken ?M s2 = Some (NUM, ''12'', s3)" using s2a(3) s3(3) by simp
  have "getToken_calls ?M 0 (s4\<lparr>lineno := lineno s4 + 1, EOF_flag := True\<rparr>) =
      Some ([], s4\<lparr>lineno := lineno s4 + 1, EOF_flag := True\<rparr>)" by simp
  from getToken_calls_Suc [OF c1 getToken_calls_Suc [OF c2 getToken_calls_Suc [OF c3
    getToken_calls_Suc [OF s4(3) getToken_calls_Suc [OF c5 this]]]]]
  show ?thesis by (simp add: eval_nat_numeral)
qed

theorem scan_assignment_statement_witness:
  "map_option fst (getToken_calls 40 5 (init_lexer ''x := 12;'')) =
     Some [(ID, ''x''), (ASSIGN, '':=''), (NUM, ''12''), (SEMI, []), (ENDFILE, [])]"
  using scan_assignment_statement [of 40] by simp

end
